theory Spec2Isabelle
  imports Main
begin

section \<open>Regular expressions of the mirroring controller\<close>

text \<open>
  \<open>MirroringController.getAbsolutePath\<close> classifies a raw path with three
  regular expressions and \<open>RegExp.prototype.test\<close>.  The expressions are kept as
  data, in the shape in which the source writes them, and \<open>test\<close> is decided by
  successive derivatives.  All three expressions are anchored with \<open>^\<close> and
  \<open>$\<close> and carry no flags, so \<open>test\<close> succeeds exactly when the whole string
  belongs to the expression.
\<close>

datatype regex =
    Never
  | Empty
  | Class "char \<Rightarrow> bool"
  | Alt regex regex
  | Seq regex regex
  | Many regex

definition lit :: "char \<Rightarrow> regex" where
  "lit c = Class (\<lambda>x. x = c)"

definition some :: "regex \<Rightarrow> regex" where
  "some r = Seq r (Many r)"

definition maybe :: "regex \<Rightarrow> regex" where
  "maybe r = Alt r Empty"

fun nullable :: "regex \<Rightarrow> bool" where
  "nullable Never = False"
| "nullable Empty = True"
| "nullable (Class P) = False"
| "nullable (Alt r s) = (nullable r \<or> nullable s)"
| "nullable (Seq r s) = (nullable r \<and> nullable s)"
| "nullable (Many r) = True"

fun deriv :: "char \<Rightarrow> regex \<Rightarrow> regex" where
  "deriv c Never = Never"
| "deriv c Empty = Never"
| "deriv c (Class P) = (if P c then Empty else Never)"
| "deriv c (Alt r s) = Alt (deriv c r) (deriv c s)"
| "deriv c (Seq r s) =
     (if nullable r then Alt (Seq (deriv c r) s) (deriv c s) else Seq (deriv c r) s)"
| "deriv c (Many r) = Seq (deriv c r) (Many r)"

fun test :: "regex \<Rightarrow> string \<Rightarrow> bool" where
  "test r [] = nullable r"
| "test r (c # s) = test (deriv c r) s"

text \<open>
  The character class \<open>[A-z0-9\-%._~()'!*:@,;+&=?#]\<close>.  The range \<open>A-z\<close> runs
  from code 65 to code 122 and therefore also holds the six characters between
  \<open>Z\<close> and \<open>a\<close>; \<open>0-9\<close> is 48 to 57; the apostrophe is code 39.
\<close>

definition pathChar :: "char \<Rightarrow> bool" where
  "pathChar c =
     ((65 \<le> (of_char c :: nat) \<and> (of_char c :: nat) \<le> 122)
      \<or> (48 \<le> (of_char c :: nat) \<and> (of_char c :: nat) \<le> 57)
      \<or> c \<in> set ''-%._~()!*:@,;+&=?#''
      \<or> c = CHR 0x27)"

text \<open>
  The common tail \<open>(([C]+\/)*[C]*$)?$\<close> of the three expressions, \<open>C\<close> being the
  class above.  The inner \<open>$\<close> stands directly before the outer one and asserts the
  same position, so both are the end of the whole-string match.
\<close>

definition pathTail :: regex where
  "pathTail = maybe (Seq (Many (Seq (some (Class pathChar)) (lit CHR ''/''))) (Many (Class pathChar)))"

definition rootPathRegex :: regex where
  "rootPathRegex = Seq (lit CHR ''/'') pathTail"

definition parentPathRegex :: regex where
  "parentPathRegex = Seq (lit CHR ''.'') (Seq (lit CHR ''.'') (Seq (lit CHR ''/'') pathTail))"

fun startsWith :: "string \<Rightarrow> string \<Rightarrow> bool" where
  "startsWith s [] = True"
| "startsWith [] (p # ps) = False"
| "startsWith (c # s) (p # ps) = (c = p \<and> startsWith s ps)"

text \<open>
  \<open>currentPathRegex\<close> opens with the two negative lookaheads \<open>(?!data:)\<close> and
  \<open>(?!javascript:)\<close>, both at position 0, followed by the common tail.
\<close>

definition currentPathRegex_test :: "string \<Rightarrow> bool" where
  "currentPathRegex_test path =
     (\<not> startsWith path ''data:'' \<and> \<not> startsWith path ''javascript:'' \<and> test pathTail path)"

section \<open>Arrays of strings\<close>

text \<open>\<open>String.prototype.split\<close> with a one-character separator.\<close>

fun split :: "char \<Rightarrow> string \<Rightarrow> string list" where
  "split sep [] = [[]]"
| "split sep (c # s) =
     (if c = sep then [] # split sep s
      else (case split sep s of [] \<Rightarrow> [[c]] | w # ws \<Rightarrow> (c # w) # ws))"

text \<open>\<open>Array.prototype.join\<close>.\<close>

fun join :: "string \<Rightarrow> string list \<Rightarrow> string" where
  "join sep [] = []"
| "join sep [w] = w"
| "join sep (w # v # ws) = w @ sep @ join sep (v # ws)"

text \<open>\<open>slice(0, -1)\<close>, \<open>slice(0, -2)\<close> and \<open>slice(1)\<close>.\<close>

definition slice_0_m1 :: "'a list \<Rightarrow> 'a list" where
  "slice_0_m1 xs = take (length xs - 1) xs"

definition slice_0_m2 :: "'a list \<Rightarrow> 'a list" where
  "slice_0_m2 xs = take (length xs - 2) xs"

definition slice_1 :: "'a list \<Rightarrow> 'a list" where
  "slice_1 xs = drop 1 xs"

section \<open>Absolute paths\<close>

text \<open>The two fields of the static \<open>url\<close> (a WHATWG \<open>URL\<close>) that the controller reads.\<close>

record url =
  host :: string
  pathname :: string

definition getAbsolutePath :: "url \<Rightarrow> string \<Rightarrow> string" where
  "getAbsolutePath u path =
     (if test rootPathRegex path then ''https://'' @ host u @ path
      else if currentPathRegex_test path then
        (let currentPaths = slice_0_m1 (split CHR ''/'' (pathname u));
             assetPaths = split CHR ''/'' path
         in ''https://'' @ host u @ join ''/'' (currentPaths @ assetPaths))
      else if test parentPathRegex path then
        (let parentPaths = slice_0_m2 (split CHR ''/'' (pathname u));
             assetPaths = slice_1 (split CHR ''/'' path)
         in ''https://'' @ host u @ join ''/'' (parentPaths @ assetPaths))
      else path)"

section \<open>Style paths\<close>

datatype error =
    TypeError
  | RequestError string
  | StatusCodeError nat
  | EncodingError

abbreviation squote :: char where
  "squote \<equiv> CHR 0x27"

abbreviation dquote :: char where
  "dquote \<equiv> CHR 0x22"

text \<open>
  \<open>stylePathRegex\<close> is \<open>/url\(['"]?([^'"()]+?)['"]?\)/gm\<close>.  It has a capturing
  group and a lazy quantifier, so it is matched the way the backtracking engine
  does it, one piece of the expression per function, each trying its
  alternatives in the engine's order.
\<close>

definition isQuote :: "char \<Rightarrow> bool" where
  "isQuote c = (c = squote \<or> c = dquote)"

text \<open>The class \<open>[^'"()]\<close>.\<close>

definition styleChar :: "char \<Rightarrow> bool" where
  "styleChar c = (c \<noteq> squote \<and> c \<noteq> dquote \<and> c \<noteq> CHR ''('' \<and> c \<noteq> CHR '')'')"

fun orElse :: "'a option \<Rightarrow> 'a option \<Rightarrow> 'a option" where
  "orElse (Some x) y = Some x"
| "orElse None y = y"

text \<open>\<open>\)\<close>: the input behind the parenthesis.\<close>

fun closeParen :: "string \<Rightarrow> string option" where
  "closeParen [] = None"
| "closeParen (c # s) = (if c = CHR '')'' then Some s else None)"

text \<open>\<open>['"]?\)\<close>: the greedy option first takes a quote, and gives it back if
  what follows fails.\<close>

fun closingQuote :: "string \<Rightarrow> string option" where
  "closingQuote [] = None"
| "closingQuote (c # s) = orElse (if isQuote c then closeParen s else None) (closeParen (c # s))"

text \<open>\<open>([^'"()]+?)['"]?\)\<close>: the lazy group takes one character, tries the rest of
  the expression, and takes one more character only when that fails.  The first
  argument is the text captured so far.\<close>

fun lazyGroup :: "string \<Rightarrow> string \<Rightarrow> (string \<times> string) option" where
  "lazyGroup g [] = None"
| "lazyGroup g (c # s) =
     (if styleChar c then
        (case closingQuote s of
           Some r \<Rightarrow> Some (g @ [c], r)
         | None \<Rightarrow> lazyGroup (g @ [c]) s)
      else None)"

text \<open>\<open>['"]?([^'"()]+?)['"]?\)\<close>.\<close>

fun openingQuote :: "string \<Rightarrow> (string \<times> string) option" where
  "openingQuote [] = None"
| "openingQuote (c # s) = orElse (if isQuote c then lazyGroup [] s else None) (lazyGroup [] (c # s))"

fun dropPrefix :: "string \<Rightarrow> string \<Rightarrow> string option" where
  "dropPrefix [] s = Some s"
| "dropPrefix (p # ps) [] = None"
| "dropPrefix (p # ps) (c # s) = (if c = p then dropPrefix ps s else None)"

text \<open>A match of the whole expression that starts at the first character: the
  length of the match and the text of group 1.\<close>

definition stylePathRegex_at :: "string \<Rightarrow> (nat \<times> string) option" where
  "stylePathRegex_at s =
     (case dropPrefix ''url('' s of
        None \<Rightarrow> None
      | Some s' \<Rightarrow>
          (case openingQuote s' of
             None \<Rightarrow> None
           | Some (g, r) \<Rightarrow> Some (length s - length r, g)))"

text \<open>\<open>new RegExp(stylePathRegex).exec(s)\<close>: a fresh expression searches from
  index 0 for the leftmost match and yields the match and group 1, or \<open>null\<close>.\<close>

fun stylePathRegex_exec :: "string \<Rightarrow> (string \<times> string) option" where
  "stylePathRegex_exec [] = None"
| "stylePathRegex_exec (c # s) =
     (case stylePathRegex_at (c # s) of
        Some (n, g) \<Rightarrow> Some (take n (c # s), g)
      | None \<Rightarrow> stylePathRegex_exec s)"

text \<open>
  \<open>stylePathReplacer\<close>.  \<open>extractedURL[1]\<close> on the \<open>null\<close> of a failed \<open>exec\<close>
  throws a \<open>TypeError\<close>.
\<close>

definition stylePathReplacer :: "url \<Rightarrow> string \<Rightarrow> error + string" where
  "stylePathReplacer u stylePath =
     (case stylePathRegex_exec stylePath of
        None \<Rightarrow> Inl TypeError
      | Some (m, extractedURL1) \<Rightarrow>
          (let absolutePath = getAbsolutePath u extractedURL1
           in if startsWith stylePath (''url('' @ [dquote])
              then Inr (''url('' @ [dquote] @ absolutePath @ [dquote] @ '')'')
              else if startsWith stylePath (''url('' @ [squote])
              then Inr (''url('' @ [squote] @ absolutePath @ [squote] @ '')'')
              else Inr (''url('' @ absolutePath @ '')'')))"

text \<open>
  \<open>text.replace(stylePathRegex, substring => this.stylePathReplacer(substring))\<close>:
  with the \<open>g\<close> flag every match, found from left to right and each search
  resuming where the previous match ended, is replaced by what the callback
  returns for it.  An exception of the callback ends the replacement.
\<close>

function replaceStylePaths :: "(string \<Rightarrow> error + string) \<Rightarrow> string \<Rightarrow> error + string" where
  "replaceStylePaths f [] = Inr []"
| "replaceStylePaths f (c # s) =
     (case stylePathRegex_at (c # s) of
        None \<Rightarrow>
          (case replaceStylePaths f s of
             Inl e \<Rightarrow> Inl e
           | Inr out \<Rightarrow> Inr (c # out))
      | Some (n, g) \<Rightarrow>
          (case f (take n (c # s)) of
             Inl e \<Rightarrow> Inl e
           | Inr new \<Rightarrow>
               (case replaceStylePaths f (drop n (c # s)) of
                  Inl e \<Rightarrow> Inl e
                | Inr out \<Rightarrow> Inr (new @ out))))"
  by pat_completeness auto
termination
proof (relation "measure (\<lambda>(f, s). length s)")
  have close: "length r < length s" if "closingQuote s = Some r" for s r
    using that
    by (cases s; cases "tl s") (auto split: if_splits)
  have lazy: "length r < length s" if "lazyGroup g s = Some (g', r)" for g s g' r
    using that
    by (induction s arbitrary: g) (force split: if_splits option.splits dest: close)+
  have alt: "a = Some x \<or> b = Some x" if "orElse a b = Some x"
    for a b :: "(string \<times> string) option" and x
    using that by (cases a) auto
  have quote: "length r < length s" if "openingQuote s = Some (g, r)" for s g r
  proof (cases s)
    case Nil
    with that show ?thesis by simp
  next
    case (Cons c t)
    with that have "orElse (if isQuote c then lazyGroup [] t else None) (lazyGroup [] (c # t)) = Some (g, r)"
      by simp
    then have "lazyGroup [] t = Some (g, r) \<or> lazyGroup [] (c # t) = Some (g, r)"
      by (auto dest!: alt split: if_splits)
    then have "length r < length t \<or> length r < length (c # t)"
      using lazy by blast
    then show ?thesis
      using Cons by auto
  qed
  have pre: "length s' \<le> length s" if "dropPrefix p s = Some s'" for p s s'
    using that
    by (induction p s rule: dropPrefix.induct) (auto split: if_splits)
  have pos: "0 < n" if "stylePathRegex_at s = Some (n, g)" for s n g
    using that
    by (auto simp: stylePathRegex_at_def split: option.splits dest!: quote pre)
  show "wf (measure (\<lambda>(f, s). length s))"
    by simp
  show "((f, s), (f, c # s)) \<in> measure (\<lambda>(f, s). length s)"
    for f :: "string \<Rightarrow> error + string" and c s
    by simp
  show "((f, drop n (c # s)), (f, c # s)) \<in> measure (\<lambda>(f, s). length s)"
    if "stylePathRegex_at (c # s) = Some x" and "(n, g) = x"
    for f :: "string \<Rightarrow> error + string" and c s x n g
    using pos [of "c # s" n g] that by simp
qed

section \<open>The assets of a document\<close>

text \<open>
  The controller reads and writes the document through jsdom.  What it touches
  are the values of the \<open>href\<close>, \<open>src\<close>, \<open>srcset\<close> and \<open>style\<close> attributes and
  the text of the \<open>style\<close> elements (one string for \<open>textContent\<close> and
  \<open>innerHTML\<close>), each list in document order as \<open>querySelectorAll\<close> returns
  it; nothing else of the tree is read.
\<close>

record dom =
  hrefAttrs :: "string list"
  srcAttrs :: "string list"
  srcsetAttrs :: "string list"
  styleAttrs :: "string list"
  styleTags :: "string list"

text \<open>\<open>styleURLRegex\<close> is \<open>/(url\()/\<close>: \<open>test\<close> looks for the text anywhere.\<close>

fun styleURLRegex_test :: "string \<Rightarrow> bool" where
  "styleURLRegex_test [] = False"
| "styleURLRegex_test (c # s) = (startsWith (c # s) ''url('' \<or> styleURLRegex_test s)"

text \<open>
  \<open>String.prototype.trimLeft\<close> removes leading white space and line terminators.
  Among the code units below 256 these are tab, line feed, vertical tab, form
  feed, carriage return, space and the no-break space.
\<close>

definition isWhiteSpace :: "char \<Rightarrow> bool" where
  "isWhiteSpace c = (c \<in> set [CHR 0x09, CHR 0x0A, CHR 0x0B, CHR 0x0C, CHR 0x0D, CHR 0x20, CHR 0xA0])"

definition trimLeft :: "string \<Rightarrow> string" where
  "trimLeft s = dropWhile isWhiteSpace s"

text \<open>
  The body of the \<open>srcset\<close> loop of \<open>changeAssetsURL\<close>.  \<open>split\<close> never returns an
  empty array, so \<open>srcTokens[0]\<close> is always an element.
\<close>

definition srcsetCandidate :: "url \<Rightarrow> string \<Rightarrow> string" where
  "srcsetCandidate u src0 =
     (let src = trimLeft src0;
          srcTokens = split CHR '' '' src;
          srcTokens' = srcTokens[0 := getAbsolutePath u (srcTokens ! 0)]
      in join '' '' srcTokens')"

definition newSrcset :: "url \<Rightarrow> string \<Rightarrow> string" where
  "newSrcset u srcset = join '','' (map (srcsetCandidate u) (split CHR '','' srcset))"

fun forEach :: "('a \<Rightarrow> error + 'b) \<Rightarrow> 'a list \<Rightarrow> error + 'b list" where
  "forEach f [] = Inr []"
| "forEach f (x # xs) =
     (case f x of
        Inl e \<Rightarrow> Inl e
      | Inr y \<Rightarrow> (case forEach f xs of Inl e \<Rightarrow> Inl e | Inr ys \<Rightarrow> Inr (y # ys)))"

text \<open>
  \<open>fetchAssetElements\<close> keeps of the \<open>style\<close> attributes and \<open>style\<close> elements
  those that pass \<open>styleURLRegex\<close>; \<open>changeAssetsURL\<close> rewrites the kept ones in
  place, the others stay as they are.
\<close>

definition changeStyle :: "url \<Rightarrow> string \<Rightarrow> error + string" where
  "changeStyle u style =
     (if styleURLRegex_test style then replaceStylePaths (stylePathReplacer u) style
      else Inr style)"

definition changeAssetsURL :: "url \<Rightarrow> dom \<Rightarrow> error + dom" where
  "changeAssetsURL u d =
     (let hrefs = map (getAbsolutePath u) (hrefAttrs d);
          srcs = map (getAbsolutePath u) (srcAttrs d);
          srcsets = map (newSrcset u) (srcsetAttrs d)
      in case forEach (changeStyle u) (styleAttrs d) of
           Inl e \<Rightarrow> Inl e
         | Inr attrs \<Rightarrow>
             (case forEach (changeStyle u) (styleTags d) of
                Inl e \<Rightarrow> Inl e
              | Inr tags \<Rightarrow>
                  Inr (d\<lparr>hrefAttrs := hrefs, srcAttrs := srcs, srcsetAttrs := srcsets,
                         styleAttrs := attrs, styleTags := tags\<rparr>)))"

section \<open>The handler\<close>

text \<open>
  The state around one run of the handler: the store of \<open>MirroringMemory\<close> and
  the outbound requests made so far, oldest first.
\<close>

record world =
  memory :: "string \<rightharpoonup> dom"
  outbound :: "string list"

text \<open>
  Modelled from the spec: \<open>MirroringMemory\<close> (the Cache Gateway) is not part
  of the sources at hand.  The spec gives it as \<open>has(url)\<close>, \<open>get(url)\<close> and
  \<open>put(url, document)\<close>, a store from target URLs to mirrored documents;
  \<open>isCached\<close> is \<open>has\<close>, \<open>caching\<close> is \<open>put\<close>, and \<open>getSerializedHTML\<close> is
  \<open>get\<close> followed by the serialization.
\<close>

definition isCached :: "world \<Rightarrow> string \<Rightarrow> bool" where
  "isCached w href = (memory w href \<noteq> None)"

definition caching :: "string \<Rightarrow> dom \<Rightarrow> world \<Rightarrow> world" where
  "caching href html w = w\<lparr>memory := (memory w)(href \<mapsto> html)\<rparr>"

datatype response =
    Send nat string
  | Json nat error

text \<open>
  What lies outside the controller is a parameter.  \<open>request\<close> is what the GET
  for a URL comes to: a network error, or a response with its status code and
  its body.  \<open>decode\<close> is \<open>iconv.decode(body, charset(res.headers, body))\<close>,
  which throws on an encoding it does not know.  \<open>jsdom\<close> builds the document
  of a text (with the \<open>http://\<close> upgrade of its \<open>innerHTML\<close>) and \<open>serialize\<close>
  writes it out.
\<close>

datatype reply =
    NetworkError error
  | Reply nat string

record library =
  request :: "string \<Rightarrow> reply"
  decode :: "string \<Rightarrow> error + string"
  jsdom :: "string \<Rightarrow> dom"
  serialize :: "dom \<Rightarrow> string"

text \<open>
  How a step of the handler ends: with a value, with an exception that goes to
  the enclosing \<open>try\<close>, or with an exception that is thrown outside the promise
  chain of the handler, where no \<open>try\<close> of the controller is around it.
\<close>

datatype 'a step =
    Done 'a
  | Throws error
  | Escapes error

text \<open>
  \<open>requestHTML\<close> makes one request and passes a callback to
  \<open>request-promise-native\<close>.  The library calls the callback with the error
  or the response, keeps what the callback throws, settles the promise
  (rejected on a network error, and under its default \<open>simple\<close> option on a
  status code outside 2xx, otherwise resolved), and then throws again what the
  callback threw, from its own frame and not through the promise.

  The callback throws the error it is given, and it throws when \<open>decode\<close>
  throws; both exceptions escape.  When the callback returns and the promise is
  rejected, \<open>await\<close> throws the rejection into the \<open>try\<close> of \<open>getHTML\<close>.
\<close>

definition requestHTML :: "library \<Rightarrow> string \<Rightarrow> world \<Rightarrow> dom step \<times> world" where
  "requestHTML lib href w =
     (let w' = w\<lparr>outbound := outbound w @ [href]\<rparr>
      in case request lib href of
           NetworkError error \<Rightarrow> (Escapes error, w')
         | Reply statusCode body \<Rightarrow>
             (case decode lib body of
                Inl thrown \<Rightarrow> (Escapes thrown, w')
              | Inr originalHTML \<Rightarrow>
                  if 200 \<le> statusCode \<and> statusCode < 300
                  then (Done (jsdom lib originalHTML), w')
                  else (Throws (StatusCodeError statusCode), w')))"

text \<open>
  What the caller of the handler gets: a response, or none because an
  exception escaped and, no handler for uncaught exceptions being installed by
  the controller, ended the process.
\<close>

datatype outcome =
    Responded response
  | Uncaught error

text \<open>\<open>getHTML\<close>, for the URL object \<open>this.url\<close> with its \<open>href\<close>.\<close>

definition getHTML :: "library \<Rightarrow> string \<Rightarrow> url \<Rightarrow> world \<Rightarrow> outcome \<times> world" where
  "getHTML lib href u w =
     (if isCached w href
      then (Responded (Send 200 (serialize lib (the (memory w href)))), w)
      else
        (case requestHTML lib href w of
           (Escapes err, w') \<Rightarrow> (Uncaught err, w')
         | (Throws err, w') \<Rightarrow> (Responded (Json 406 err), w')
         | (Done html, w') \<Rightarrow>
             (case changeAssetsURL u html of
                Inl err \<Rightarrow> (Responded (Json 406 err), w')
              | Inr html' \<Rightarrow>
                  (Responded (Send 200 (serialize lib html')), caching href html' w'))))"

section \<open>The language of an expression\<close>

text \<open>
  The set of strings an expression stands for, to reason about \<open>test\<close> on
  strings that are not given in full.
\<close>

definition conc :: "string set \<Rightarrow> string set \<Rightarrow> string set" where
  "conc A B = {u @ v | u v. u \<in> A \<and> v \<in> B}"

inductive_set star :: "string set \<Rightarrow> string set" for A :: "string set" where
  star_empty: "[] \<in> star A"
| star_step: "u \<in> A \<Longrightarrow> v \<in> star A \<Longrightarrow> u @ v \<in> star A"

fun lang :: "regex \<Rightarrow> string set" where
  "lang Never = {}"
| "lang Empty = {[]}"
| "lang (Class P) = {[c] | c. P c}"
| "lang (Alt r s) = lang r \<union> lang s"
| "lang (Seq r s) = conc (lang r) (lang s)"
| "lang (Many r) = star (lang r)"

text \<open>
  The shape of the segments of a path in the common tail: class characters
  only, and no empty segment but possibly the last.
\<close>

definition segmentsOK :: "string list \<Rightarrow> bool" where
  "segmentsOK ws \<longleftrightarrow> (\<forall>w\<in>set ws. \<forall>c\<in>set w. pathChar c) \<and> (\<forall>w\<in>set (butlast ws). w \<noteq> [])"

section \<open>Matching by derivatives decides the language\<close>

declare test.simps [simp del]

lemma conc_empty [simp]: "conc {} B = {}" "conc A {} = {}"
  by (simp_all add: conc_def)

lemma conc_unit [simp]: "conc {[]} B = B" "conc A {[]} = A"
  by (simp_all add: conc_def)

lemma nil_in_conc [simp]: "[] \<in> conc A B \<longleftrightarrow> [] \<in> A \<and> [] \<in> B"
  by (auto simp: conc_def)

lemma cons_in_conc:
  "c # s \<in> conc A B \<longleftrightarrow>
     (\<exists>u v. s = u @ v \<and> c # u \<in> A \<and> v \<in> B) \<or> ([] \<in> A \<and> c # s \<in> B)"
  by (auto simp: conc_def Cons_eq_append_conv)

lemma in_conc: "w \<in> conc A B \<longleftrightarrow> (\<exists>u v. w = u @ v \<and> u \<in> A \<and> v \<in> B)"
  by (auto simp: conc_def)

lemma star_split:
  assumes "w \<in> star A" and "w = c # s"
  shows "\<exists>u v. s = u @ v \<and> c # u \<in> A \<and> v \<in> star A"
  using assms
proof (induction arbitrary: s rule: star.induct)
  case star_empty
  then show ?case by simp
next
  case (star_step u v)
  show ?case
  proof (cases u)
    case Nil
    with star_step show ?thesis by simp
  next
    case (Cons d u')
    with star_step.prems have "s = u' @ v" and "d = c" by simp_all
    with Cons star_step.hyps show ?thesis by blast
  qed
qed

lemma cons_in_star:
  "c # s \<in> star A \<longleftrightarrow> (\<exists>u v. s = u @ v \<and> c # u \<in> A \<and> v \<in> star A)"
proof
  assume "c # s \<in> star A"
  then show "\<exists>u v. s = u @ v \<and> c # u \<in> A \<and> v \<in> star A"
    by (rule star_split) simp
next
  assume "\<exists>u v. s = u @ v \<and> c # u \<in> A \<and> v \<in> star A"
  then obtain u v where "s = u @ v" "c # u \<in> A" "v \<in> star A" by blast
  then show "c # s \<in> star A"
    using star_step [of "c # u" A v] by simp
qed

lemma nullable_lang: "nullable r \<longleftrightarrow> [] \<in> lang r"
  by (induction r) (auto intro: star_empty)

lemma deriv_lang: "s \<in> lang (deriv c r) \<longleftrightarrow> c # s \<in> lang r"
proof (induction r arbitrary: s)
  case (Seq r1 r2)
  have "s \<in> conc (lang (deriv c r1)) (lang r2) \<longleftrightarrow>
          (\<exists>u v. s = u @ v \<and> c # u \<in> lang r1 \<and> v \<in> lang r2)"
    by (simp add: in_conc Seq.IH)
  then show ?case
    by (simp add: cons_in_conc nullable_lang Seq.IH)
next
  case (Many r)
  have "s \<in> conc (lang (deriv c r)) (star (lang r)) \<longleftrightarrow>
          (\<exists>u v. s = u @ v \<and> c # u \<in> lang r \<and> v \<in> star (lang r))"
    by (simp add: in_conc Many.IH)
  then show ?case
    by (simp add: cons_in_star)
qed auto

lemma test_lang: "test r s \<longleftrightarrow> s \<in> lang r"
  by (induction s arbitrary: r) (simp_all add: test.simps nullable_lang deriv_lang)


lemmas regex_defs = rootPathRegex_def parentPathRegex_def pathTail_def lit_def some_def maybe_def

lemma test_Never: "test Never s = False"
  by (simp add: test_lang)

lemma test_Alt: "test (Alt a b) s = (test a s \<or> test b s)"
  by (simp add: test_lang)

lemma test_Seq_Never: "test (Seq Never r) s = False"
  by (simp add: test_lang)

lemma test_Seq_Empty: "test (Seq Empty r) s = test r s"
  by (simp add: test_lang)

lemma test_Seq_Seq: "test (Seq (Seq a b) c) s = test (Seq a (Seq b c)) s"
  by (auto simp: test_lang in_conc) (metis append.assoc)+

lemma test_Seq_Alt: "test (Seq (Alt a b) c) s = (test (Seq a c) s \<or> test (Seq b c) s)"
  by (auto simp: test_lang in_conc)

lemmas test_norm =
  test_Never test_Alt test_Seq_Never test_Seq_Empty test_Seq_Seq test_Seq_Alt

lemma rootPathRegex_head: "test rootPathRegex (c # s) \<Longrightarrow> c = CHR ''/''"
  by (cases "c = CHR ''/''") (simp_all add: rootPathRegex_def lit_def test.simps test_norm)

lemma rootPathRegex_nonempty: "\<not> test rootPathRegex []"
  by (simp add: rootPathRegex_def lit_def test.simps)

lemma parentPathRegex_head: "test parentPathRegex (c # s) \<Longrightarrow> c = CHR ''.''"
  by (cases "c = CHR ''.''") (simp_all add: parentPathRegex_def lit_def test.simps test_norm)

lemma pathTail_no_slash: "\<not> test pathTail (CHR ''/'' # s)"
  by (simp add: regex_defs pathChar_def test.simps test_norm)

lemma pathTail_https: "\<not> test pathTail (''https://'' @ s)"
  by (simp add: regex_defs pathChar_def test.simps test_norm)


lemma startsWith_append: "startsWith s p \<longleftrightarrow> (\<exists>x. s = p @ x)"
  by (induction s p rule: startsWith.induct) auto

lemma rootPathRegex_iff:
  "test rootPathRegex p \<longleftrightarrow> (\<exists>s. p = CHR ''/'' # s \<and> test pathTail s)"
  by (auto simp: test_lang rootPathRegex_def lit_def in_conc)

lemma parentPathRegex_iff:
  "test parentPathRegex p \<longleftrightarrow> (\<exists>s. p = ''../'' @ s \<and> test pathTail s)"
  by (auto simp: test_lang parentPathRegex_def lit_def in_conc)

lemma dotdot_segment:
  "''../'' \<in> lang (Seq (some (Class pathChar)) (lit CHR ''/''))"
proof -
  have dot: "''.'' \<in> lang (Class pathChar)"
    by (simp add: pathChar_def)
  then have "''.'' @ [] \<in> star (lang (Class pathChar))"
    by (intro star_step star_empty)
  with dot have "''.'' @ ''.'' \<in> lang (some (Class pathChar))"
    unfolding some_def lang.simps in_conc by (metis append_Nil2)
  then have "(''.'' @ ''.'') @ ''/'' \<in> lang (Seq (some (Class pathChar)) (lit CHR ''/''))"
    unfolding lang.simps in_conc lit_def by blast
  then show ?thesis by simp
qed

lemma pathTail_dotdot:
  assumes "test pathTail s"
  shows "test pathTail (''../'' @ s)"
proof -
  define S where "S = lang (Seq (some (Class pathChar)) (lit CHR ''/''))"
  define C where "C = lang (Class pathChar)"
  have tail: "lang pathTail = conc (star S) (star C) \<union> {[]}"
    by (simp add: pathTail_def maybe_def S_def C_def)
  have "[] \<in> conc (star S) (star C)"
    by (simp add: star_empty)
  with assms have "s \<in> conc (star S) (star C)"
    by (auto simp: test_lang tail)
  then obtain a b where s: "s = a @ b" and a: "a \<in> star S" and b: "b \<in> star C"
    by (auto simp: in_conc)
  from dotdot_segment have "''../'' \<in> S"
    by (simp only: S_def)
  then have "''../'' @ a \<in> star S"
    using a by (rule star_step)
  with b have "(''../'' @ a) @ b \<in> conc (star S) (star C)"
    unfolding in_conc by blast
  with s show ?thesis
    by (simp add: test_lang tail del: lang.simps)
qed

lemma parent_is_current:
  assumes "test parentPathRegex p"
  shows "currentPathRegex_test p"
proof -
  from assms obtain s where p: "p = ''../'' @ s" and s: "test pathTail s"
    by (auto simp: parentPathRegex_iff)
  from s have "test pathTail (''../'' @ s)"
    by (rule pathTail_dotdot)
  with p show ?thesis
    by (simp add: currentPathRegex_test_def)
qed

lemma root_not_current: "test rootPathRegex p \<Longrightarrow> \<not> currentPathRegex_test p"
  by (auto simp: rootPathRegex_iff currentPathRegex_test_def pathTail_no_slash)

lemma root_not_parent: "test rootPathRegex p \<Longrightarrow> \<not> test parentPathRegex p"
  by (auto simp: rootPathRegex_iff parentPathRegex_iff)

lemma https_unmatched:
  "\<not> test rootPathRegex (''https://'' @ x)"
  "\<not> currentPathRegex_test (''https://'' @ x)"
  "\<not> test parentPathRegex (''https://'' @ x)"
  using pathTail_https [of x]
  by (auto simp: rootPathRegex_iff parentPathRegex_iff currentPathRegex_test_def
     )

lemma getAbsolutePath_https: "getAbsolutePath u (''https://'' @ x) = ''https://'' @ x"
  using https_unmatched [of x] by (simp add: getAbsolutePath_def)

lemma getAbsolutePath_cases:
  "(\<exists>x. getAbsolutePath u p = ''https://'' @ x) \<or>
   (getAbsolutePath u p = p \<and> \<not> test rootPathRegex p \<and> \<not> currentPathRegex_test p
      \<and> \<not> test parentPathRegex p)"
  by (simp add: getAbsolutePath_def Let_def)

section \<open>Splitting and joining\<close>

lemma split_nonempty: "split c s \<noteq> []"
  by (induction s) (auto split: list.splits)

lemma split_Cons_other:
  "x \<noteq> c \<Longrightarrow> split c (x # s) = (x # hd (split c s)) # tl (split c s)"
  using split_nonempty [of c s] by (cases "split c s") auto

lemma split_no_sep: "c \<notin> set s \<Longrightarrow> split c s = [s]"
  by (induction s) auto

lemma split_append: "split c (a @ c # b) = split c a @ split c b"
  by (induction a) (auto split: list.splits simp: split_nonempty)

lemma join_Cons: "ws \<noteq> [] \<Longrightarrow> join sep (w # ws) = w @ sep @ join sep ws"
  by (cases ws) auto

lemma join_append:
  "xs \<noteq> [] \<Longrightarrow> ys \<noteq> [] \<Longrightarrow> join sep (xs @ ys) = join sep xs @ sep @ join sep ys"
  by (induction sep xs rule: join.induct) (auto simp: join_Cons)

lemma join_split: "join [c] (split c s) = s"
proof (induction s)
  case Nil
  show ?case by simp
next
  case (Cons x s)
  show ?case
  proof (cases "x = c")
    case True
    with Cons show ?thesis by (simp add: join_Cons split_nonempty)
  next
    case False
    obtain w ws where ws: "split c s = w # ws"
      using split_nonempty [of c s] by (cases "split c s") auto
    with Cons False show ?thesis by (cases ws) auto
  qed
qed

lemma slice_0_m1_butlast: "slice_0_m1 xs = butlast xs"
  by (simp add: slice_0_m1_def butlast_conv_take)

lemma split_hd: "hd (split c s) = takeWhile (\<lambda>x. x \<noteq> c) s"
  by (induction s) (auto split: list.splits simp: split_nonempty)

lemma join_tl_split:
  "join [c] (x # tl (split c s)) = x @ dropWhile (\<lambda>y. y \<noteq> c) s"
proof (induction s)
  case Nil
  show ?case by simp
next
  case (Cons a s)
  show ?case
  proof (cases "a = c")
    case True
    then show ?thesis
      by (simp add: join_Cons split_nonempty join_split)
  next
    case False
    with Cons show ?thesis
      by (simp add: split_Cons_other del: split.simps)
  qed
qed


lemma split_root: "split CHR ''/'' (CHR ''/'' # rest) = [] # split CHR ''/'' rest"
  by simp

lemma currentPaths_root:
  "slice_0_m1 (split CHR ''/'' (CHR ''/'' # rest)) = [] # butlast (split CHR ''/'' rest)"
  by (simp add: slice_0_m1_butlast split_nonempty)

lemma getAbsolutePath_current:
  assumes "currentPathRegex_test p"
  shows "getAbsolutePath u p =
           ''https://'' @ host u @ join ''/'' (slice_0_m1 (split CHR ''/'' (pathname u)) @ split CHR ''/'' p)"
  using assms root_not_current [of p] by (auto simp: getAbsolutePath_def Let_def)

lemma currentPaths_dir:
  assumes "CHR ''/'' \<notin> set f"
  shows "slice_0_m1 (split CHR ''/'' (d @ CHR ''/'' # f)) = split CHR ''/'' d"
  using assms by (simp add: slice_0_m1_butlast split_append split_no_sep)

lemma getAbsolutePath_current_dir:
  assumes "currentPathRegex_test p" and "pathname u = d @ CHR ''/'' # f" and "CHR ''/'' \<notin> set f"
  shows "getAbsolutePath u p = ''https://'' @ host u @ d @ ''/'' @ p"
proof -
  have "join ''/'' (split CHR ''/'' d @ split CHR ''/'' p) = d @ ''/'' @ p"
    by (simp add: join_append split_nonempty join_split del: split.simps)
  with assms show ?thesis
    by (simp add: getAbsolutePath_current currentPaths_dir del: split.simps)
qed

lemma currentPathRegex_empty: "currentPathRegex_test []"
  by (simp add: currentPathRegex_test_def regex_defs test.simps)

lemma srcsetCandidate_eq:
  "srcsetCandidate u c =
     getAbsolutePath u (takeWhile (\<lambda>x. x \<noteq> CHR '' '') (trimLeft c))
       @ dropWhile (\<lambda>x. x \<noteq> CHR '' '') (trimLeft c)"
proof -
  define tokens where "tokens = split CHR '' '' (trimLeft c)"
  have ne: "tokens \<noteq> []"
    by (simp add: tokens_def split_nonempty)
  then have "tokens[0 := x] = x # tl tokens" and "tokens ! 0 = hd tokens" for x
    by (cases tokens; simp)+
  then have "srcsetCandidate u c = join '' '' (getAbsolutePath u (hd tokens) # tl tokens)"
    by (simp add: srcsetCandidate_def tokens_def Let_def)
  then show ?thesis
    by (simp add: tokens_def split_hd join_tl_split)
qed

lemma getAbsolutePath_top_level:
  assumes "currentPathRegex_test p" and "pathname u = CHR ''/'' # f" and "CHR ''/'' \<notin> set f"
  shows "getAbsolutePath u p = ''https://'' @ host u @ ''/'' @ p"
  using getAbsolutePath_current_dir [of p u "[]" f] assms by simp

section \<open>The common tail in terms of segments\<close>

text \<open>
  A string belongs to the common tail exactly when the segments that
  \<open>split('/')\<close> gives for it consist of class characters and only the last one
  may be empty.
\<close>

lemma star_Class: "w \<in> star (lang (Class P)) \<longleftrightarrow> (\<forall>c\<in>set w. P c)"
proof
  assume "w \<in> star (lang (Class P))"
  then show "\<forall>c\<in>set w. P c"
    by (induction rule: star.induct) auto
next
  assume "\<forall>c\<in>set w. P c"
  then show "w \<in> star (lang (Class P))"
  proof (induction w)
    case Nil
    show ?case by (rule star_empty)
  next
    case (Cons c w)
    then have "[c] \<in> lang (Class P)" and "w \<in> star (lang (Class P))"
      by simp_all
    then have "[c] @ w \<in> star (lang (Class P))"
      by (rule star_step)
    then show ?case by simp
  qed
qed

lemma lang_some_Class:
  "x \<in> lang (some (Class P)) \<longleftrightarrow> x \<noteq> [] \<and> (\<forall>c\<in>set x. P c)"
proof (cases x)
  case Nil
  then show ?thesis by (simp add: some_def)
next
  case (Cons c y)
  have "c # y \<in> conc (lang (Class P)) (star (lang (Class P)))
          \<longleftrightarrow> P c \<and> y \<in> star (lang (Class P))"
    by (auto simp: cons_in_conc)
  with Cons show ?thesis
    by (simp add: some_def star_Class del: lang.simps(3))
qed

lemma lang_Seq_lit: "u \<in> lang (Seq r (lit c)) \<longleftrightarrow> (\<exists>w. u = w @ [c] \<and> w \<in> lang r)"
  by (auto simp: in_conc lit_def)

lemma lang_segment:
  "u \<in> lang (Seq (some (Class pathChar)) (lit CHR ''/'')) \<longleftrightarrow>
     (\<exists>w. u = w @ ''/'' \<and> w \<noteq> [] \<and> (\<forall>c\<in>set w. pathChar c))"
  by (simp only: lang_Seq_lit lang_some_Class)

lemma lang_maybe_Seq_Many:
  "lang (maybe (Seq (Many r) (Many c))) = conc (star (lang r)) (star (lang c))"
  by (auto simp: maybe_def star_empty)

lemma lang_pathTail:
  "lang pathTail =
     conc (star (lang (Seq (some (Class pathChar)) (lit CHR ''/'')))) (star (lang (Class pathChar)))"
  unfolding pathTail_def by (rule lang_maybe_Seq_Many)

lemma pathChar_no_slash: "\<forall>c\<in>set w. pathChar c \<Longrightarrow> CHR ''/'' \<notin> set w"
  by (auto simp: pathChar_def)

lemma split_segment:
  "CHR ''/'' \<notin> set w \<Longrightarrow> split CHR ''/'' (w @ CHR ''/'' # t) = w # split CHR ''/'' t"
  by (simp add: split_append split_no_sep del: split.simps)

lemma pathTail_segments_if:
  assumes "a \<in> star (lang (Seq (some (Class pathChar)) (lit CHR ''/'')))"
    and "\<forall>c\<in>set b. pathChar c"
  shows "segmentsOK (split CHR ''/'' (a @ b))"
  using assms
proof (induction rule: star.induct)
  case star_empty
  then show ?case
    by (simp add: segmentsOK_def split_no_sep pathChar_no_slash del: split.simps)
next
  case (star_step u v)
  from star_step.hyps(1) obtain w where u: "u = w @ ''/''" and w: "w \<noteq> []" "\<forall>c\<in>set w. pathChar c"
    unfolding lang_segment by blast
  from w have "split CHR ''/'' ((u @ v) @ b) = w # split CHR ''/'' (v @ b)"
    unfolding u using split_segment [of w "v @ b"] by (simp add: pathChar_no_slash del: split.simps)
  moreover have "segmentsOK (split CHR ''/'' (v @ b))"
    using star_step by blast
  ultimately show ?case
    using w by (simp add: segmentsOK_def split_nonempty del: split.simps)
qed

lemma pathTail_segments_only_if:
  assumes "segmentsOK (split CHR ''/'' s)"
  shows "s \<in> lang pathTail"
  using assms
proof (induction s rule: length_induct)
  case (1 s)
  let ?S = "lang (Seq (some (Class pathChar)) (lit CHR ''/''))"
  let ?C = "lang (Class pathChar)"
  show ?case
  proof (cases "CHR ''/'' \<in> set s")
    case False
    with 1(2) have "\<forall>c\<in>set s. pathChar c"
      by (simp add: segmentsOK_def split_no_sep del: split.simps)
    then have "s \<in> star ?C"
      by (simp only: star_Class)
    then have "[] @ s \<in> conc (star ?S) (star ?C)"
      unfolding in_conc using star_empty by blast
    then show ?thesis
      by (simp add: lang_pathTail del: lang.simps)
  next
    case True
    then obtain w t where s: "s = w @ CHR ''/'' # t" and w: "CHR ''/'' \<notin> set w"
      by (meson split_list_first)
    then have sp: "split CHR ''/'' s = w # split CHR ''/'' t"
      by (simp add: split_segment del: split.simps)
    with 1(2) have wok: "w \<noteq> []" "\<forall>c\<in>set w. pathChar c" and tok: "segmentsOK (split CHR ''/'' t)"
      by (auto simp: segmentsOK_def split_nonempty simp del: split.simps)
    from s have "length t < length s" by simp
    with 1(1) tok have "t \<in> lang pathTail" by blast
    then obtain a b where t: "t = a @ b" and a: "a \<in> star ?S" and b: "b \<in> star ?C"
      unfolding lang_pathTail in_conc by blast
    from wok have "w @ ''/'' \<in> ?S"
      unfolding lang_segment by blast
    then have "(w @ ''/'') @ a \<in> star ?S"
      using a by (rule star_step)
    with b have "((w @ ''/'') @ a) @ b \<in> conc (star ?S) (star ?C)"
      unfolding in_conc by blast
    with s t show ?thesis
      by (simp add: lang_pathTail del: lang.simps)
  qed
qed

lemma pathTail_iff:
  "test pathTail s \<longleftrightarrow>
     (\<forall>w\<in>set (split CHR ''/'' s). \<forall>c\<in>set w. pathChar c)
     \<and> (\<forall>w\<in>set (butlast (split CHR ''/'' s)). w \<noteq> [])"
proof -
  have "s \<in> lang pathTail \<Longrightarrow> segmentsOK (split CHR ''/'' s)"
    unfolding lang_pathTail in_conc star_Class using pathTail_segments_if by blast
  then show ?thesis
    using pathTail_segments_only_if [of s] by (auto simp: test_lang segmentsOK_def simp del: lang.simps split.simps)
qed

section \<open>Classification of raw paths\<close>

text \<open>
  C3.  Absolutization is a projection: for every target URL and every raw path,
  applying \<open>getAbsolutePath\<close> to its own result gives that result again.  A
  rewritten path starts with \<open>https://\<close> and matches none of the three
  expressions; a path that was passed through matches none of them either.
\<close>

theorem getAbsolutePath_idempotent:
  "getAbsolutePath u (getAbsolutePath u p) = getAbsolutePath u p"
proof -
  consider x where "getAbsolutePath u p = ''https://'' @ x"
    | "getAbsolutePath u p = p"
    using getAbsolutePath_cases [of u p] by blast
  then show ?thesis
  proof cases
    case 1
    then show ?thesis
      by (simp only: getAbsolutePath_https)
  next
    case 2
    then show ?thesis
      by (simp only:)
  qed
qed

text \<open>
  C9.  A raw path that begins with \<open>data:\<close> or \<open>javascript:\<close> is returned
  unchanged, whatever the target URL: the root and parent expressions need a
  first character \<open>/\<close> or \<open>.\<close>, and the current expression refuses both
  prefixes in its lookaheads.
\<close>

theorem getAbsolutePath_opaque:
  assumes "startsWith path ''data:'' \<or> startsWith path ''javascript:''"
  shows "getAbsolutePath u path = path"
proof -
  from assms obtain c s where p: "path = c # s" and c: "c = CHR ''d'' \<or> c = CHR ''j''"
    by (auto simp: startsWith_append)
  from c have "\<not> test rootPathRegex (c # s)" and "\<not> test parentPathRegex (c # s)"
    by (auto dest: rootPathRegex_head parentPathRegex_head)
  moreover from assms have "\<not> currentPathRegex_test path"
    by (auto simp: currentPathRegex_test_def)
  ultimately show ?thesis
    using p by (simp add: getAbsolutePath_def)
qed

theorem getAbsolutePath_opaque_witness:
  "getAbsolutePath \<lparr>host = ''example.com'', pathname = ''/dir/page.html''\<rparr>
     ''data:image/png;base64,AAAA'' = ''data:image/png;base64,AAAA''
   \<and> getAbsolutePath \<lparr>host = ''example.com'', pathname = ''/dir/page.html''\<rparr>
     ''javascript:void(0)'' = ''javascript:void(0)''"
  using getAbsolutePath_opaque
          [of "''data:image/png;base64,AAAA''" "\<lparr>host = ''example.com'', pathname = ''/dir/page.html''\<rparr>"]
        getAbsolutePath_opaque
          [of "''javascript:void(0)''" "\<lparr>host = ''example.com'', pathname = ''/dir/page.html''\<rparr>"]
  by simp

text \<open>
  The branch of \<open>parentPathRegex\<close> is never taken: a path it matches takes the
  branch of \<open>currentPathRegex\<close>.  Had it been taken for \<open>../img/b.png\<close> at
  \<open>/dir/sub/page.html\<close>, its body would give \<open>https://example.com/dir/img/b.png\<close>.
\<close>

lemma getAbsolutePath_parent_unreachable:
  assumes "test parentPathRegex p"
  shows "getAbsolutePath u p =
           ''https://'' @ host u @ join ''/'' (slice_0_m1 (split CHR ''/'' (pathname u)) @ split CHR ''/'' p)"
  using assms by (intro getAbsolutePath_current parent_is_current)

lemma parent_branch_example:
  "''https://'' @ ''example.com'' @
     join ''/'' (slice_0_m2 (split CHR ''/'' ''/dir/sub/page.html'') @ slice_1 (split CHR ''/'' ''../img/b.png''))
   = ''https://example.com/dir/img/b.png''"
  by (simp add: slice_0_m2_def slice_1_def)

text \<open>
  C1.  The claim asks that \<open>../img/b.png\<close> at \<open>/dir/sub/page.html\<close> on
  \<open>example.com\<close> becomes \<open>https://example.com/dir/img/b.png\<close>.  The code
  returns another string: \<open>currentPathRegex\<close> accepts the path as well (\<open>..\<close> is
  a segment of class characters, see \<open>parent_is_current\<close>) and is tried before
  \<open>parentPathRegex\<close>, so only the last segment of the target's path is dropped
  and \<open>..\<close> stays in the result.
\<close>

theorem getAbsolutePath_parent_example:
  "getAbsolutePath \<lparr>host = ''example.com'', pathname = ''/dir/sub/page.html''\<rparr> ''../img/b.png''
     = ''https://example.com/dir/sub/../img/b.png''"
  by (simp add: getAbsolutePath_def currentPathRegex_test_def regex_defs pathChar_def
      test.simps slice_0_m1_def)

text \<open>
  C2.  The claim asks that at most one of the three expressions matches a raw
  path.  \<open>../img/b.png\<close> is matched by both \<open>currentPathRegex\<close> and
  \<open>parentPathRegex\<close>, and by \<open>parent_is_current\<close> so is every path the parent
  expression matches.
\<close>

theorem current_and_parent_overlap:
  "currentPathRegex_test ''../img/b.png'' \<and> test parentPathRegex ''../img/b.png''"
  by (simp add: currentPathRegex_test_def regex_defs pathChar_def test.simps)

section \<open>Relative paths\<close>

text \<open>
  C8.  For a raw path that \<open>currentPathRegex\<close> matches, and a target whose
  path starts with \<open>/\<close> as the path of every \<open>http\<close> or \<open>https\<close> URL does,
  the result is \<open>https://\<close>, the host, \<open>/\<close> and the segments of the target's
  path without the last one, followed by the segments of the raw path, joined
  by \<open>/\<close>.  At \<open>/dir/page.html\<close> on \<open>example.com\<close> the path \<open>img/b.png\<close>
  becomes \<open>https://example.com/dir/img/b.png\<close>.
\<close>

theorem getAbsolutePath_current_relative:
  assumes "currentPathRegex_test p" and "pathname u = CHR ''/'' # rest"
  shows "getAbsolutePath u p =
           ''https://'' @ host u @ ''/'' @
             join ''/'' (butlast (split CHR ''/'' rest) @ split CHR ''/'' p)"
proof -
  have "butlast (split CHR ''/'' rest) @ split CHR ''/'' p \<noteq> []"
    by (simp add: split_nonempty)
  then have "join ''/'' ([] # (butlast (split CHR ''/'' rest) @ split CHR ''/'' p)) =
               ''/'' @ join ''/'' (butlast (split CHR ''/'' rest) @ split CHR ''/'' p)"
    by (simp add: join_Cons)
  with assms show ?thesis
    by (simp add: getAbsolutePath_current currentPaths_root del: split.simps)
qed

theorem getAbsolutePath_current_relative_witness:
  "currentPathRegex_test ''img/b.png''
   \<and> getAbsolutePath \<lparr>host = ''example.com'', pathname = ''/dir/page.html''\<rparr> ''img/b.png''
       = ''https://example.com/dir/img/b.png''"
  using getAbsolutePath_current_relative
          [of "''img/b.png''" "\<lparr>host = ''example.com'', pathname = ''/dir/page.html''\<rparr>" "''dir/page.html''"]
  by (simp add: currentPathRegex_test_def regex_defs pathChar_def test.simps)

text \<open>
  C10.  The empty raw path is not passed through: \<open>currentPathRegex\<close> matches
  it, and the result is \<open>https://\<close>, the host and the target's path up to and
  with its last \<open>/\<close>, that is the path with its last segment dropped and a
  trailing \<open>/\<close>.  At \<open>/dir/page.html\<close> the result is \<open>https://{host}/dir/\<close>.
\<close>

theorem getAbsolutePath_empty:
  assumes "pathname u = d @ CHR ''/'' # f" and "CHR ''/'' \<notin> set f"
  shows "currentPathRegex_test [] \<and> getAbsolutePath u [] \<noteq> []
         \<and> getAbsolutePath u [] = ''https://'' @ host u @ d @ ''/''"
  using getAbsolutePath_current_dir [OF currentPathRegex_empty assms]
  by (simp add: currentPathRegex_empty)

theorem getAbsolutePath_empty_witness:
  "getAbsolutePath \<lparr>host = ''example.com'', pathname = ''/dir/page.html''\<rparr> []
     = ''https://example.com/dir/''"
  using getAbsolutePath_empty
          [of "\<lparr>host = ''example.com'', pathname = ''/dir/page.html''\<rparr>" "''/dir''" "''page.html''"]
  by simp

section \<open>The srcset attribute\<close>

text \<open>
  C6, as amended.  For every document, \<open>newSrcset\<close> splits the value on commas,
  trims the leading white space of each candidate, absolutizes the candidate up
  to its first space and leaves what follows as it is, and joins the candidates
  with commas.  For a document at the top level of host \<open>h\<close> (its path is \<open>/\<close>
  and one segment), \<open>a.png 1x, b.png 2x\<close> becomes
  \<open>https://h/a.png 1x,https://h/b.png 2x\<close>.
\<close>

theorem newSrcset_candidates:
  "newSrcset u srcset =
     join '','' (map (\<lambda>c. getAbsolutePath u (takeWhile (\<lambda>x. x \<noteq> CHR '' '') (trimLeft c))
                             @ dropWhile (\<lambda>x. x \<noteq> CHR '' '') (trimLeft c))
                     (split CHR '','' srcset))
   \<and> (pathname u = CHR ''/'' # f \<and> CHR ''/'' \<notin> set f \<longrightarrow>
        newSrcset u ''a.png 1x, b.png 2x''
          = ''https://'' @ host u @ ''/a.png 1x,https://'' @ host u @ ''/b.png 2x'')"
proof (intro conjI impI)
  have "map (srcsetCandidate u) xs =
      map (\<lambda>c. getAbsolutePath u (takeWhile (\<lambda>x. x \<noteq> CHR '' '') (trimLeft c))
                 @ dropWhile (\<lambda>x. x \<noteq> CHR '' '') (trimLeft c)) xs" for xs
    by (simp add: srcsetCandidate_eq)
  then show "newSrcset u srcset =
     join '','' (map (\<lambda>c. getAbsolutePath u (takeWhile (\<lambda>x. x \<noteq> CHR '' '') (trimLeft c))
                             @ dropWhile (\<lambda>x. x \<noteq> CHR '' '') (trimLeft c))
                     (split CHR '','' srcset))"
    by (simp only: newSrcset_def)
next
  assume top: "pathname u = CHR ''/'' # f \<and> CHR ''/'' \<notin> set f"
  have a: "currentPathRegex_test ''a.png''" and b: "currentPathRegex_test ''b.png''"
    by (simp_all add: currentPathRegex_test_def regex_defs pathChar_def test.simps)
  have "getAbsolutePath u ''a.png'' = ''https://'' @ host u @ ''/a.png''"
    and "getAbsolutePath u ''b.png'' = ''https://'' @ host u @ ''/b.png''"
    using getAbsolutePath_top_level [OF a, of u f] getAbsolutePath_top_level [OF b, of u f] top
    by simp_all
  then show "newSrcset u ''a.png 1x, b.png 2x''
               = ''https://'' @ host u @ ''/a.png 1x,https://'' @ host u @ ''/b.png 2x''"
    by (simp add: newSrcset_def srcsetCandidate_eq trimLeft_def isWhiteSpace_def)
qed

theorem newSrcset_candidates_witness:
  "newSrcset \<lparr>host = ''h'', pathname = ''/page.html''\<rparr> ''a.png 1x, b.png 2x''
     = ''https://h/a.png 1x,https://h/b.png 2x''
   \<and> newSrcset \<lparr>host = ''h'', pathname = ''/dir/page.html''\<rparr> ''x.png 2x,  /y.png''
     = ''https://h/dir/x.png 2x,https://h/y.png''"
proof -
  have abs: "getAbsolutePath \<lparr>host = ''h'', pathname = ''/dir/page.html''\<rparr> ''x.png'' = ''https://h/dir/x.png''"
    "getAbsolutePath \<lparr>host = ''h'', pathname = ''/dir/page.html''\<rparr> ''/y.png'' = ''https://h/y.png''"
    by (simp_all add: getAbsolutePath_def currentPathRegex_test_def regex_defs pathChar_def
        test.simps slice_0_m1_def)
  show ?thesis
    using newSrcset_candidates
            [of "\<lparr>host = ''h'', pathname = ''/page.html''\<rparr>" "''a.png 1x, b.png 2x''" "''page.html''",
             THEN conjunct2]
          newSrcset_candidates
            [of "\<lparr>host = ''h'', pathname = ''/dir/page.html''\<rparr>" "''x.png 2x,  /y.png''" "[]",
             THEN conjunct1]
    by (simp add: trimLeft_def isWhiteSpace_def abs)
qed

text \<open>
  C6 as stated names only the host of the document.  For a document in a
  directory, here \<open>/dir/page.html\<close> on \<open>h\<close>, the candidates are resolved
  against that directory and the result is not the one the claim gives.
\<close>

theorem newSrcset_subdirectory:
  "newSrcset \<lparr>host = ''h'', pathname = ''/dir/page.html''\<rparr> ''a.png 1x, b.png 2x''
     \<noteq> ''https://h/a.png 1x,https://h/b.png 2x''"
  by (simp add: newSrcset_def srcsetCandidate_def trimLeft_def isWhiteSpace_def
      getAbsolutePath_def currentPathRegex_test_def regex_defs pathChar_def test.simps
      slice_0_m1_def)

section \<open>What the style expression matches\<close>

text \<open>
  A match of \<open>stylePathRegex\<close> is \<open>url(\<close>, an optional quote, a non-empty run
  of characters other than quotes and parentheses, an optional quote and \<open>)\<close>;
  group 1 is the run.  The two quotes need not be the same.
\<close>

lemma closingQuote_styleChar: "styleChar c \<Longrightarrow> closingQuote (c # s) = None"
  by (simp add: styleChar_def isQuote_def)

lemma closingQuote_end:
  "q \<in> {[], [squote], [dquote]} \<Longrightarrow> closingQuote (q @ CHR '')'' # r) = Some r"
  by (auto simp: isQuote_def)

lemma lazyGroup_run:
  assumes "body \<noteq> []" and "\<forall>c\<in>set body. styleChar c" and "closingQuote t = Some r"
  shows "lazyGroup g (body @ t) = Some (g @ body, r)"
  using assms
proof (induction body arbitrary: g)
  case Nil
  then show ?case by simp
next
  case (Cons c b)
  show ?case
  proof (cases b)
    case Nil
    with Cons.prems show ?thesis by simp
  next
    case (Cons c' b')
    with Cons.prems have "closingQuote (b @ t) = None"
      by (simp add: closingQuote_styleChar del: closingQuote.simps)
    moreover have "lazyGroup (g @ [c]) (b @ t) = Some ((g @ [c]) @ b, r)"
      using Cons.prems Cons by (intro Cons.IH) simp_all
    ultimately show ?thesis
      using Cons.prems by simp
  qed
qed

lemma openingQuote_unquoted:
  "\<not> isQuote c \<Longrightarrow> openingQuote (c # s) = lazyGroup [] (c # s)"
  by (simp del: lazyGroup.simps)

lemma openingQuote_quoted:
  "isQuote x \<Longrightarrow> lazyGroup [] s = Some y \<Longrightarrow> openingQuote (x # s) = Some y"
  by (simp del: lazyGroup.simps)

lemma openingQuote_run:
  assumes "q \<in> {[], [squote], [dquote]}"
    and "body \<noteq> []" and "\<forall>c\<in>set body. styleChar c" and "closingQuote t = Some r"
  shows "openingQuote (q @ body @ t) = Some (body, r)"
proof -
  have run: "lazyGroup [] (body @ t) = Some (body, r)"
    using lazyGroup_run [OF assms(2-4), of "[]"] by simp
  show ?thesis
  proof (cases "q = []")
    case True
    obtain c b where body: "body = c # b"
      using assms(2) by (cases body) auto
    with assms(3) have "\<not> isQuote c"
      by (auto simp: styleChar_def isQuote_def)
    then have "openingQuote (c # b @ t) = lazyGroup [] (c # b @ t)"
      by (rule openingQuote_unquoted)
    with run True show ?thesis
      unfolding body by (simp del: lazyGroup.simps openingQuote.simps)
  next
    case False
    with assms(1) obtain x where q: "q = [x]" and x: "isQuote x"
      by (auto simp: isQuote_def)
    from x run have "openingQuote (x # body @ t) = Some (body, r)"
      by (rule openingQuote_quoted)
    with q show ?thesis
      by (simp del: openingQuote.simps)
  qed
qed

lemma stylePathRegex_at_run:
  assumes "q \<in> {[], [squote], [dquote]}" and "q' \<in> {[], [squote], [dquote]}"
    and "body \<noteq> []" and "\<forall>c\<in>set body. styleChar c"
  shows "stylePathRegex_at (''url('' @ q @ body @ q' @ '')'' @ r)
           = Some (length (''url('' @ q @ body @ q' @ '')''), body)"
proof -
  have "closingQuote (q' @ '')'' @ r) = Some r"
    using closingQuote_end [OF assms(2)] by simp
  then have "openingQuote (q @ body @ q' @ '')'' @ r) = Some (body, r)"
    by (rule openingQuote_run [OF assms(1,3,4)])
  then show ?thesis
    by (simp add: stylePathRegex_at_def)
qed

lemma stylePathRegex_exec_at:
  "stylePathRegex_at s = Some (n, g) \<Longrightarrow> stylePathRegex_exec s = Some (take n s, g)"
  by (cases s) (simp_all add: stylePathRegex_at_def)

lemma stylePathRegex_exec_run:
  assumes "q \<in> {[], [squote], [dquote]}" and "q' \<in> {[], [squote], [dquote]}"
    and "body \<noteq> []" and "\<forall>c\<in>set body. styleChar c"
  shows "stylePathRegex_exec (''url('' @ q @ body @ q' @ '')'')
           = Some (''url('' @ q @ body @ q' @ '')'', body)"
proof -
  define m where "m = ''url('' @ q @ body @ q' @ '')''"
  have "stylePathRegex_at m = Some (length m, body)"
    using stylePathRegex_at_run [OF assms, of "[]"] by (simp add: m_def)
  then have "stylePathRegex_exec m = Some (take (length m) m, body)"
    by (rule stylePathRegex_exec_at)
  then show ?thesis
    by (simp add: m_def)
qed

lemma startsWith_url_quote:
  "startsWith (''url('' @ q @ t) (''url('' @ [x]) \<longleftrightarrow> (\<exists>t'. q @ t = x # t')"
  by (cases "q @ t") auto

lemma stylePathReplacer_run:
  assumes "q \<in> {[], [squote], [dquote]}" and "q' \<in> {[], [squote], [dquote]}"
    and "body \<noteq> []" and "\<forall>c\<in>set body. styleChar c"
  shows "stylePathReplacer u (''url('' @ q @ body @ q' @ '')'')
           = Inr (''url('' @ q @ getAbsolutePath u body @ q @ '')'')"
proof -
  define m where "m = ''url('' @ q @ body @ q' @ '')''"
  obtain c b where body: "body = c # b"
    using assms(3) by (cases body) auto
  with assms(4) have c: "c \<noteq> squote" "c \<noteq> dquote"
    by (auto simp: styleChar_def)
  have sd: "startsWith m (''url('' @ [dquote]) \<longleftrightarrow> q = [dquote]"
    using assms(1) c body by (auto simp: m_def)
  have ss: "startsWith m (''url('' @ [squote]) \<longleftrightarrow> q = [squote]"
    using assms(1) c body by (auto simp: m_def)
  have ex: "stylePathRegex_exec m = Some (m, body)"
    unfolding m_def by (rule stylePathRegex_exec_run [OF assms])
  have "stylePathReplacer u m = Inr (''url('' @ q @ getAbsolutePath u body @ q @ '')'')"
    unfolding stylePathReplacer_def ex sd ss using assms(1) by auto
  then show ?thesis
    by (simp only: m_def)
qed


lemma closeParen_Some: "closeParen s = Some r \<longleftrightarrow> s = CHR '')'' # r"
  by (cases s) auto

lemma orElse_Some: "orElse a b = Some x \<Longrightarrow> a = Some x \<or> b = Some x"
  by (cases a) auto

lemma closingQuote_quote:
  "isQuote c \<Longrightarrow> closingQuote (c # t) = closeParen t"
  by (cases "closeParen t") (auto simp: isQuote_def)

lemma closingQuote_other:
  "\<not> isQuote c \<Longrightarrow> closingQuote (c # t) = closeParen (c # t)"
  by simp

lemma closingQuote_Some:
  assumes "closingQuote s = Some r"
  shows "\<exists>q'. q' \<in> {[], [squote], [dquote]} \<and> s = q' @ CHR '')'' # r"
proof (cases s)
  case Nil
  with assms show ?thesis by simp
next
  case (Cons c t)
  show ?thesis
  proof (cases "isQuote c")
    case True
    from assms Cons have "t = CHR '')'' # r"
      by (simp only: closingQuote_quote [OF True] closeParen_Some)
    with True Cons have "[c] \<in> {[], [squote], [dquote]} \<and> s = [c] @ CHR '')'' # r"
      by (simp add: isQuote_def)
    then show ?thesis by blast
  next
    case False
    from assms Cons have "c # t = CHR '')'' # r"
      by (simp only: closingQuote_other [OF False] closeParen_Some)
    with Cons have "[] \<in> {[], [squote], [dquote]} \<and> s = [] @ CHR '')'' # r"
      by simp
    then show ?thesis by blast
  qed
qed

lemma lazyGroup_Some:
  assumes "lazyGroup g s = Some (g', r)"
  shows "\<exists>body q'. g' = g @ body \<and> body \<noteq> [] \<and> (\<forall>c\<in>set body. styleChar c)
           \<and> q' \<in> {[], [squote], [dquote]} \<and> s = body @ q' @ CHR '')'' # r"
  using assms
proof (induction s arbitrary: g)
  case Nil
  then show ?case by simp
next
  case (Cons c t)
  from Cons.prems have c: "styleChar c"
    by (simp split: if_splits)
  show ?case
  proof (cases "closingQuote t")
    case (Some r')
    with Cons.prems c have "g' = g @ [c]" and "r' = r"
      by simp_all
    moreover from Some obtain q' where "q' \<in> {[], [squote], [dquote]}" and "t = q' @ CHR '')'' # r'"
      using closingQuote_Some by blast
    ultimately have "g' = g @ [c] \<and> [c] \<noteq> [] \<and> (\<forall>x\<in>set [c]. styleChar x)
        \<and> q' \<in> {[], [squote], [dquote]} \<and> c # t = [c] @ q' @ CHR '')'' # r"
      using c by simp
    then show ?thesis by blast
  next
    case None
    with Cons.prems c have "lazyGroup (g @ [c]) t = Some (g', r)"
      by simp
    then obtain body q' where "g' = (g @ [c]) @ body" "\<forall>x\<in>set body. styleChar x"
      "q' \<in> {[], [squote], [dquote]}" "t = body @ q' @ CHR '')'' # r"
      using Cons.IH by blast
    then have "g' = g @ (c # body) \<and> c # body \<noteq> [] \<and> (\<forall>x\<in>set (c # body). styleChar x)
        \<and> q' \<in> {[], [squote], [dquote]} \<and> c # t = (c # body) @ q' @ CHR '')'' # r"
      using c by simp
    then show ?thesis by blast
  qed
qed

lemma openingQuote_Some:
  assumes "openingQuote s = Some (g, r)"
  shows "\<exists>q q'. q \<in> {[], [squote], [dquote]} \<and> q' \<in> {[], [squote], [dquote]}
           \<and> g \<noteq> [] \<and> (\<forall>c\<in>set g. styleChar c) \<and> s = q @ g @ q' @ CHR '')'' # r"
proof (cases s)
  case Nil
  with assms show ?thesis by simp
next
  case (Cons c t)
  with assms have "(isQuote c \<and> lazyGroup [] t = Some (g, r)) \<or> lazyGroup [] (c # t) = Some (g, r)"
    by (auto dest!: orElse_Some split: if_splits simp del: lazyGroup.simps)
  then show ?thesis
  proof
    assume a: "isQuote c \<and> lazyGroup [] t = Some (g, r)"
    then obtain q' where "g \<noteq> []" "\<forall>x\<in>set g. styleChar x"
      "q' \<in> {[], [squote], [dquote]}" "t = g @ q' @ CHR '')'' # r"
      using lazyGroup_Some [of "[]" t g r] by auto
    moreover from a have "[c] \<in> {[], [squote], [dquote]}"
      by (simp add: isQuote_def)
    ultimately have "[c] \<in> {[], [squote], [dquote]} \<and> q' \<in> {[], [squote], [dquote]}
       \<and> g \<noteq> [] \<and> (\<forall>x\<in>set g. styleChar x) \<and> s = [c] @ g @ q' @ CHR '')'' # r"
      using Cons by simp
    then show ?thesis by blast
  next
    assume "lazyGroup [] (c # t) = Some (g, r)"
    then obtain q' where "g \<noteq> []" "\<forall>x\<in>set g. styleChar x"
      "q' \<in> {[], [squote], [dquote]}" "c # t = g @ q' @ CHR '')'' # r"
      using lazyGroup_Some [of "[]" "c # t" g r] by auto
    then have "[] \<in> {[], [squote], [dquote]} \<and> q' \<in> {[], [squote], [dquote]}
       \<and> g \<noteq> [] \<and> (\<forall>x\<in>set g. styleChar x) \<and> s = [] @ g @ q' @ CHR '')'' # r"
      using Cons by simp
    then show ?thesis by blast
  qed
qed

lemma dropPrefix_Some: "dropPrefix p s = Some s' \<longleftrightarrow> s = p @ s'"
  by (induction p s rule: dropPrefix.induct) auto

lemma stylePathRegex_at_parts:
  assumes "stylePathRegex_at s = Some (n, g)"
  shows "\<exists>s' r. dropPrefix ''url('' s = Some s' \<and> openingQuote s' = Some (g, r)
           \<and> n = length s - length r"
proof (cases "dropPrefix ''url('' s")
  case None
  with assms show ?thesis
    by (simp add: stylePathRegex_at_def)
next
  case (Some s')
  show ?thesis
  proof (cases "openingQuote s'")
    case None
    with assms Some show ?thesis
      by (simp add: stylePathRegex_at_def)
  next
    case inner: (Some y)
    obtain g' r where y: "y = (g', r)"
      by (cases y)
    with assms Some inner have "g' = g" and "n = length s - length r"
      by (simp_all add: stylePathRegex_at_def)
    with Some inner y show ?thesis
      by blast
  qed
qed

lemma stylePathRegex_at_Some:
  assumes "stylePathRegex_at s = Some (n, g)"
  shows "\<exists>q q'. q \<in> {[], [squote], [dquote]} \<and> q' \<in> {[], [squote], [dquote]}
           \<and> g \<noteq> [] \<and> (\<forall>c\<in>set g. styleChar c)
           \<and> take n s = ''url('' @ q @ g @ q' @ '')''"
proof -
  from assms obtain s' r where pre: "dropPrefix ''url('' s = Some s'"
    and op: "openingQuote s' = Some (g, r)" and n: "n = length s - length r"
    using stylePathRegex_at_parts by blast
  from openingQuote_Some [OF op]
  obtain q q' where q: "q \<in> {[], [squote], [dquote]}" "q' \<in> {[], [squote], [dquote]}"
    and g: "g \<noteq> []" "\<forall>c\<in>set g. styleChar c" and s': "s' = q @ g @ q' @ CHR '')'' # r"
    by (elim exE conjE) (rule that)
  define m where "m = ''url('' @ q @ g @ q' @ '')''"
  from pre have "s = ''url('' @ s'"
    by (simp only: dropPrefix_Some)
  with s' have s: "s = m @ r"
    by (simp add: m_def)
  with n have "n = length m"
    by simp
  with s have "take n s = ''url('' @ q @ g @ q' @ '')''"
    by (simp add: m_def)
  with q g have "q \<in> {[], [squote], [dquote]} \<and> q' \<in> {[], [squote], [dquote]}
      \<and> g \<noteq> [] \<and> (\<forall>c\<in>set g. styleChar c) \<and> take n s = ''url('' @ q @ g @ q' @ '')''"
    by (intro conjI)
  then show ?thesis
    by (intro exI)
qed

lemma stylePathReplacer_match:
  assumes "stylePathRegex_at s = Some (n, g)"
  shows "\<exists>new. stylePathReplacer u (take n s) = Inr new"
proof -
  from stylePathRegex_at_Some [OF assms]
  obtain q q' where "q \<in> {[], [squote], [dquote]}" "q' \<in> {[], [squote], [dquote]}"
    "g \<noteq> []" "\<forall>c\<in>set g. styleChar c" "take n s = ''url('' @ q @ g @ q' @ '')''"
    by (elim exE conjE) (rule that)
  then show ?thesis
    using stylePathReplacer_run [of q q' g u] by simp
qed

lemma replaceStylePaths_total:
  "\<exists>out. replaceStylePaths (stylePathReplacer u) css = Inr out"
proof (induction "stylePathReplacer u" css rule: replaceStylePaths.induct)
  case 1
  show ?case by simp
next
  case (2 c s)
  show ?case
  proof (cases "stylePathRegex_at (c # s)")
    case None
    with 2(1) show ?thesis
      by auto
  next
    case (Some m)
    obtain n g where m: "m = (n, g)"
      by (cases m)
    from Some m obtain new where new: "stylePathReplacer u (take n (c # s)) = Inr new"
      using stylePathReplacer_match [of "c # s" n g u] by auto
    from 2(2) [OF Some m [symmetric] new] obtain out
      where "replaceStylePaths (stylePathReplacer u) (drop n (c # s)) = Inr out"
      by blast
    with Some m new show ?thesis
      by simp
  qed
qed

lemma replaceStylePaths_match:
  assumes "stylePathRegex_at s = Some (n, g)"
    and "f (take n s) = Inr new" and "replaceStylePaths f (drop n s) = Inr out"
  shows "replaceStylePaths f s = Inr (new @ out)"
proof (cases s)
  case Nil
  with assms(1) show ?thesis
    by (simp add: stylePathRegex_at_def)
next
  case (Cons c t)
  with assms show ?thesis
    by simp
qed

lemma forEach_total:
  assumes "\<And>x. \<exists>y. f x = Inr y"
  shows "\<exists>ys. forEach f xs = Inr ys"
proof (induction xs)
  case Nil
  show ?case by simp
next
  case (Cons x xs)
  from assms obtain y where "f x = Inr y" by blast
  moreover from Cons obtain ys where "forEach f xs = Inr ys" by blast
  ultimately show ?case by simp
qed

lemma changeStyle_total: "\<exists>out. changeStyle u css = Inr out"
  using replaceStylePaths_total [of u css] by (simp add: changeStyle_def)

lemma changeAssetsURL_total: "\<exists>d'. changeAssetsURL u d = Inr d'"
proof -
  obtain attrs where "forEach (changeStyle u) (styleAttrs d) = Inr attrs"
    using forEach_total [of "changeStyle u"] changeStyle_total by blast
  moreover obtain tags where "forEach (changeStyle u) (styleTags d) = Inr tags"
    using forEach_total [of "changeStyle u"] changeStyle_total by blast
  ultimately show ?thesis
    by (simp add: changeAssetsURL_def Let_def)
qed

section \<open>Text before a style path\<close>

text \<open>
  A match of \<open>stylePathRegex\<close> that starts before a \<open>url(\<close> ends before it:
  the parenthesis of \<open>url(\<close> can be neither in the path of a match nor at its
  end.  So the replacement over a text that continues with \<open>url(\<close> is the
  replacement over the text up to there, followed by the replacement over the
  rest; and a text without \<open>url(\<close> is left as it is.
\<close>

lemma map_option_orElse: "map_option f (orElse a b) = orElse (map_option f a) (map_option f b)"
  by (cases a) auto

lemma closeParen_append:
  "closeParen (s @ ''url('' @ t) = map_option (\<lambda>r. r @ ''url('' @ t) (closeParen s)"
  by (cases s) auto

lemma closingQuote_append:
  "closingQuote (s @ ''url('' @ t) = map_option (\<lambda>r. r @ ''url('' @ t) (closingQuote s)"
proof (cases s)
  case Nil
  then show ?thesis by (simp add: isQuote_def)
next
  case (Cons c s')
  have "closeParen (s' @ ''url('' @ t) = map_option (\<lambda>r. r @ ''url('' @ t) (closeParen s')"
    by (rule closeParen_append)
  moreover have "closeParen ((c # s') @ ''url('' @ t) = map_option (\<lambda>r. r @ ''url('' @ t) (closeParen (c # s'))"
    by (rule closeParen_append)
  ultimately show ?thesis
    unfolding Cons by (simp add: map_option_orElse del: closeParen.simps)
qed

lemma lazyGroup_url: "lazyGroup g (''url('' @ t) = None"
  by (simp add: styleChar_def isQuote_def)

lemma lazyGroup_append:
  "lazyGroup g (s @ ''url('' @ t) = map_option (\<lambda>(g', r). (g', r @ ''url('' @ t)) (lazyGroup g s)"
proof (induction s arbitrary: g)
  case Nil
  show ?case
    using lazyGroup_url [of g t] by simp
next
  case (Cons c s)
  show ?case
  proof (cases "styleChar c")
    case False
    then show ?thesis by simp
  next
    case True
    show ?thesis
    proof (cases "closingQuote s")
      case None
      then have "closingQuote (s @ ''url('' @ t) = None"
        by (simp only: closingQuote_append option.map)
      with None True Cons [of "g @ [c]"] show ?thesis
        by simp
    next
      case (Some r)
      then have "closingQuote (s @ ''url('' @ t) = Some (r @ ''url('' @ t)"
        by (simp only: closingQuote_append option.map)
      with Some True show ?thesis
        by simp
    qed
  qed
qed

lemma openingQuote_append:
  "openingQuote (s @ ''url('' @ t) = map_option (\<lambda>(g', r). (g', r @ ''url('' @ t)) (openingQuote s)"
proof (cases s)
  case Nil
  have "openingQuote (''url('' @ t) = None"
    using lazyGroup_url [of "[]" t] by (simp add: isQuote_def del: lazyGroup.simps)
  with Nil show ?thesis by simp
next
  case (Cons c s')
  have "lazyGroup [] (s' @ ''url('' @ t) = map_option (\<lambda>(g', r). (g', r @ ''url('' @ t)) (lazyGroup [] s')"
    by (rule lazyGroup_append)
  moreover have "lazyGroup [] ((c # s') @ ''url('' @ t)
      = map_option (\<lambda>(g', r). (g', r @ ''url('' @ t)) (lazyGroup [] (c # s'))"
    by (rule lazyGroup_append)
  ultimately show ?thesis
    unfolding Cons by (simp add: map_option_orElse del: lazyGroup.simps)
qed

lemma dropPrefix_append:
  assumes "s \<noteq> []"
  shows "dropPrefix ''url('' (s @ ''url('' @ t) = map_option (\<lambda>r. r @ ''url('' @ t) (dropPrefix ''url('' s)"
proof -
  consider a where "s = [a]" | a b where "s = [a, b]" | a b c where "s = [a, b, c]"
    | a b c d s' where "s = a # b # c # d # s'"
    using assms by (cases s; cases "tl s"; cases "tl (tl s)"; cases "tl (tl (tl s))") auto
  then show ?thesis
    by cases auto
qed

lemma stylePathRegex_at_append:
  assumes "s \<noteq> []"
  shows "stylePathRegex_at (s @ ''url('' @ t) = stylePathRegex_at s"
proof (cases "dropPrefix ''url('' s")
  case None
  then have "dropPrefix ''url('' (s @ ''url('' @ t) = None"
    by (simp only: dropPrefix_append [OF assms] option.map)
  with None show ?thesis
    by (simp only: stylePathRegex_at_def option.case)
next
  case (Some s')
  then have pre: "dropPrefix ''url('' (s @ ''url('' @ t) = Some (s' @ ''url('' @ t)"
    by (simp only: dropPrefix_append [OF assms] option.map)
  show ?thesis
  proof (cases "openingQuote s'")
    case None
    then have "openingQuote (s' @ ''url('' @ t) = None"
      by (simp only: openingQuote_append option.map)
    with None Some pre show ?thesis
      by (simp only: stylePathRegex_at_def option.case)
  next
    case inner: (Some y)
    obtain g r where y: "y = (g, r)" by (cases y)
    from inner y have "openingQuote (s' @ ''url('' @ t) = Some (g, r @ ''url('' @ t)"
      by (simp only: openingQuote_append option.map prod.case)
    with inner y Some pre show ?thesis
      by (simp add: stylePathRegex_at_def)
  qed
qed

lemma stylePathRegex_at_le: "stylePathRegex_at s = Some (n, g) \<Longrightarrow> n \<le> length s"
  using stylePathRegex_at_parts [of s n g] by auto

lemma replaceStylePaths_at_Some:
  assumes "stylePathRegex_at s = Some (n, g)"
  shows "replaceStylePaths f s =
           (case f (take n s) of
              Inl e \<Rightarrow> Inl e
            | Inr new \<Rightarrow>
                (case replaceStylePaths f (drop n s) of
                   Inl e \<Rightarrow> Inl e
                 | Inr out \<Rightarrow> Inr (new @ out)))"
proof (cases s)
  case Nil
  with assms show ?thesis by (simp add: stylePathRegex_at_def)
next
  case (Cons c t)
  from assms show ?thesis unfolding Cons by simp
qed

lemma take_prefix: "n \<le> length xs \<Longrightarrow> take n (xs @ ys) = take n xs"
  by simp

lemma drop_prefix: "n \<le> length xs \<Longrightarrow> drop n (xs @ ys) = drop n xs @ ys"
  by simp

lemma replaceStylePaths_at_None:
  assumes "stylePathRegex_at (c # s) = None"
  shows "replaceStylePaths f (c # s) =
           (case replaceStylePaths f s of Inl e \<Rightarrow> Inl e | Inr out \<Rightarrow> Inr (c # out))"
  using assms by simp

lemma replaceStylePaths_append:
  "replaceStylePaths f (s @ ''url('' @ t) =
     (case replaceStylePaths f s of
        Inl e \<Rightarrow> Inl e
      | Inr a \<Rightarrow> (case replaceStylePaths f (''url('' @ t) of Inl e \<Rightarrow> Inl e | Inr b \<Rightarrow> Inr (a @ b)))"
proof -
  define x where "x = ''url('' @ t"
  have at: "stylePathRegex_at (s @ x) = stylePathRegex_at s" if "s \<noteq> []" for s
    unfolding x_def using that by (rule stylePathRegex_at_append)
  have "replaceStylePaths f (s @ x) =
     (case replaceStylePaths f s of
        Inl e \<Rightarrow> Inl e
      | Inr a \<Rightarrow> (case replaceStylePaths f x of Inl e \<Rightarrow> Inl e | Inr b \<Rightarrow> Inr (a @ b)))"
  proof (induction f s rule: replaceStylePaths.induct)
    case (1 f)
    show ?case
      by (cases "replaceStylePaths f x") simp_all
  next
    case (2 f c s)
    show ?case
    proof (cases "stylePathRegex_at (c # s)")
      case None
      then have "stylePathRegex_at (c # (s @ x)) = None"
        using at [of "c # s"] by simp
      then have "replaceStylePaths f (c # (s @ x)) =
          (case replaceStylePaths f (s @ x) of Inl e \<Rightarrow> Inl e | Inr out \<Rightarrow> Inr (c # out))"
        by (rule replaceStylePaths_at_None)
      moreover note replaceStylePaths_at_None [OF None, of f] 2(1) [OF None]
      ultimately show ?thesis
        by (simp split: sum.splits del: replaceStylePaths.simps)
    next
      case (Some m)
      obtain n g where m: "m = (n, g)" by (cases m)
      with Some have here: "stylePathRegex_at (c # s) = Some (n, g)"
        by simp
      then have there: "stylePathRegex_at ((c # s) @ x) = Some (n, g)"
        using at [of "c # s"] by simp
      from here have le: "n \<le> length (c # s)"
        by (rule stylePathRegex_at_le)
      have tk: "take n ((c # s) @ x) = take n (c # s)"
        using le by (rule take_prefix)
      have dr: "drop n ((c # s) @ x) = drop n (c # s) @ x"
        using le by (rule drop_prefix)
      note long = replaceStylePaths_at_Some [OF there, of f, unfolded tk dr]
      note short = replaceStylePaths_at_Some [OF here, of f]
      show ?thesis
      proof (cases "f (take n (c # s))")
        case (Inl e)
        with long short show ?thesis
          by (simp only: sum.case)
      next
        case (Inr new)
        note ih = 2(2) [OF Some m [symmetric] Inr]
        show ?thesis
        proof (cases "replaceStylePaths f (drop n (c # s))")
          case inner: (Inl e)
          with long short Inr ih show ?thesis
            by (simp only: sum.case)
        next
          case inner: (Inr a)
          show ?thesis
          proof (cases "replaceStylePaths f x")
            case (Inl e)
            with inner long short Inr ih show ?thesis
              by (simp only: sum.case)
          next
            case tail: (Inr b)
            with inner long short Inr ih show ?thesis
              by (simp only: sum.case append_assoc)
          qed
        qed
      qed
    qed
  qed
  then show ?thesis
    by (simp only: x_def)
qed

lemma replaceStylePaths_no_url:
  "\<not> styleURLRegex_test s \<Longrightarrow> replaceStylePaths f s = Inr s"
proof (induction s)
  case Nil
  show ?case by simp
next
  case (Cons c s)
  from Cons.prems have no: "\<not> startsWith (c # s) ''url(''" and rest: "\<not> styleURLRegex_test s"
    by simp_all
  have "dropPrefix ''url('' (c # s) = None"
  proof (cases "dropPrefix ''url('' (c # s)")
    case None
    then show ?thesis .
  next
    case (Some r)
    then have "c # s = ''url('' @ r"
      by (simp only: dropPrefix_Some)
    then have "startsWith (c # s) ''url(''"
      unfolding startsWith_append by blast
    with no show ?thesis by contradiction
  qed
  then have "stylePathRegex_at (c # s) = None"
    by (simp add: stylePathRegex_at_def)
  with Cons.IH [OF rest] show ?case
    by simp
qed

section \<open>Style rewriting\<close>

text \<open>
  C5.  A \<open>url(...)\<close> written with double quotes, with single quotes or without
  quotes (\<open>q\<close> is the quote or nothing, on both sides of a non-empty path without
  quotes and parentheses) is re-emitted by \<open>stylePathReplacer\<close> in the same style
  around the absolutized path.  And wherever such an occurrence stands in a
  style text, with any text before it and any text after it, the replacement
  over the whole text puts the re-emitted occurrence in its place, between the
  replacement of the text before and the replacement of the text after.
\<close>

theorem stylePathReplacer_keeps_quotes:
  assumes "q \<in> {[], [squote], [dquote]}" and "body \<noteq> []" and "\<forall>c\<in>set body. styleChar c"
  shows "stylePathReplacer u (''url('' @ q @ body @ q @ '')'')
           = Inr (''url('' @ q @ getAbsolutePath u body @ q @ '')'')
         \<and> (\<exists>before' after'.
               replaceStylePaths (stylePathReplacer u) before = Inr before'
               \<and> replaceStylePaths (stylePathReplacer u) after = Inr after'
               \<and> replaceStylePaths (stylePathReplacer u)
                     (before @ (''url('' @ q @ body @ q @ '')'') @ after)
                   = Inr (before' @ (''url('' @ q @ getAbsolutePath u body @ q @ '')'') @ after'))"
proof -
  define m where "m = ''url('' @ q @ body @ q @ '')''"
  define m' where "m' = ''url('' @ q @ getAbsolutePath u body @ q @ '')''"
  have new: "stylePathReplacer u m = Inr m'"
    unfolding m_def m'_def by (rule stylePathReplacer_run [OF assms(1) assms(1) assms(2,3)])
  have at: "stylePathRegex_at (m @ after) = Some (length m, body)"
    using stylePathRegex_at_run [OF assms(1) assms(1) assms(2,3), of after] by (simp add: m_def)
  obtain after' where after: "replaceStylePaths (stylePathReplacer u) after = Inr after'"
    using replaceStylePaths_total by blast
  obtain before' where before: "replaceStylePaths (stylePathReplacer u) before = Inr before'"
    using replaceStylePaths_total by blast
  have here: "replaceStylePaths (stylePathReplacer u) (m @ after) = Inr (m' @ after')"
    by (rule replaceStylePaths_match [OF at]) (simp_all add: new after)
  have "m @ after = ''url('' @ (q @ body @ q @ '')'' @ after)"
    by (simp add: m_def)
  then have "replaceStylePaths (stylePathReplacer u) (before @ m @ after) =
      (case replaceStylePaths (stylePathReplacer u) before of
         Inl e \<Rightarrow> Inl e
       | Inr a \<Rightarrow>
           (case replaceStylePaths (stylePathReplacer u) (m @ after) of
              Inl e \<Rightarrow> Inl e
            | Inr b \<Rightarrow> Inr (a @ b)))"
    using replaceStylePaths_append [of "stylePathReplacer u" before "q @ body @ q @ '')'' @ after"]
    by (simp only:)
  with before here have "replaceStylePaths (stylePathReplacer u) (before @ m @ after)
      = Inr (before' @ m' @ after')"
    by (simp only: sum.case)
  with new before after show ?thesis
    unfolding m_def m'_def by blast
qed

theorem stylePathReplacer_keeps_quotes_witness:
  "stylePathReplacer \<lparr>host = ''h'', pathname = ''/dir/page.html''\<rparr> (''url('' @ [squote] @ ''a.png'' @ [squote] @ '')'')
     = Inr (''url('' @ [squote] @ ''https://h/dir/a.png'' @ [squote] @ '')'')
   \<and> stylePathReplacer \<lparr>host = ''h'', pathname = ''/dir/page.html''\<rparr> (''url('' @ [dquote] @ ''a.png'' @ [dquote] @ '')'')
     = Inr (''url('' @ [dquote] @ ''https://h/dir/a.png'' @ [dquote] @ '')'')
   \<and> stylePathReplacer \<lparr>host = ''h'', pathname = ''/dir/page.html''\<rparr> ''url(a.png)''
     = Inr ''url(https://h/dir/a.png)''
   \<and> replaceStylePaths (stylePathReplacer \<lparr>host = ''h'', pathname = ''/dir/page.html''\<rparr>)
         (''background:'' @ (''url('' @ [squote] @ ''a.png'' @ [squote] @ '')'') @ '' no-repeat'')
     = Inr (''background:'' @ (''url('' @ [squote] @ ''https://h/dir/a.png'' @ [squote] @ '')'') @ '' no-repeat'')"
proof -
  have abs: "getAbsolutePath \<lparr>host = ''h'', pathname = ''/dir/page.html''\<rparr> ''a.png'' = ''https://h/dir/a.png''"
    by (simp add: getAbsolutePath_def currentPathRegex_test_def regex_defs pathChar_def
        test.simps slice_0_m1_def)
  have body: "''a.png'' \<noteq> [] \<and> (\<forall>c\<in>set ''a.png''. styleChar c)"
    by (simp add: styleChar_def)
  have plain: "replaceStylePaths f ''background:'' = Inr ''background:''"
    "replaceStylePaths f '' no-repeat'' = Inr '' no-repeat''" for f
    by (rule replaceStylePaths_no_url, simp)+
  show ?thesis
    using stylePathReplacer_keeps_quotes
            [of "[squote]" "''a.png''" "\<lparr>host = ''h'', pathname = ''/dir/page.html''\<rparr>"
                "''background:''" "'' no-repeat''"]
          stylePathReplacer_keeps_quotes
            [of "[dquote]" "''a.png''" "\<lparr>host = ''h'', pathname = ''/dir/page.html''\<rparr>" "[]" "[]"]
          stylePathReplacer_keeps_quotes
            [of "[]" "''a.png''" "\<lparr>host = ''h'', pathname = ''/dir/page.html''\<rparr>" "[]" "[]"]
          body
    by (simp add: abs plain del: replaceStylePaths.simps)
qed

text \<open>
  C4.  Rewriting never fails.  \<open>getAbsolutePath\<close> is a function from strings to
  strings (\<open>test\<close> recurses on the string), and a path that none of the three
  expressions matches is returned as it is.  \<open>stylePathReplacer\<close> can throw, on a
  text without a match, but on every text that \<open>replace\<close> hands to it, a match
  of \<open>stylePathRegex\<close>, it returns a string; so the replacement over any style
  text returns a string, and so does \<open>changeAssetsURL\<close> on any document.
\<close>

theorem rewriting_total:
  "(\<exists>out. replaceStylePaths (stylePathReplacer u) css = Inr out)
   \<and> (\<exists>d'. changeAssetsURL u d = Inr d')
   \<and> (stylePathRegex_at s = Some (n, g) \<longrightarrow> (\<exists>new. stylePathReplacer u (take n s) = Inr new))
   \<and> (\<not> test rootPathRegex p \<and> \<not> currentPathRegex_test p \<and> \<not> test parentPathRegex p
        \<longrightarrow> getAbsolutePath u p = p)"
  using replaceStylePaths_total [of u css] changeAssetsURL_total [of u d]
    stylePathReplacer_match [of s n g u]
  by (simp add: getAbsolutePath_def)

theorem rewriting_total_witness:
  "stylePathRegex_at ''url(x.png) b'' = Some (10, ''x.png'')
   \<and> (\<exists>new. stylePathReplacer \<lparr>host = ''h'', pathname = ''/dir/page.html''\<rparr> ''url(x.png)'' = Inr new)
   \<and> \<not> test rootPathRegex ''a b'' \<and> \<not> currentPathRegex_test ''a b'' \<and> \<not> test parentPathRegex ''a b''
   \<and> getAbsolutePath \<lparr>host = ''h'', pathname = ''/dir/page.html''\<rparr> ''a b'' = ''a b''"
proof -
  have at: "stylePathRegex_at ''url(x.png) b'' = Some (10, ''x.png'')"
    by (simp add: stylePathRegex_at_def styleChar_def isQuote_def)
  have no: "\<not> test rootPathRegex ''a b'' \<and> \<not> currentPathRegex_test ''a b'' \<and> \<not> test parentPathRegex ''a b''"
    by (simp add: currentPathRegex_test_def regex_defs pathChar_def test.simps test_norm)
  show ?thesis
    using rewriting_total
            [of "\<lparr>host = ''h'', pathname = ''/dir/page.html''\<rparr>" "[]" "\<lparr>hrefAttrs = [], srcAttrs = [], srcsetAttrs = [], styleAttrs = [], styleTags = []\<rparr>" "''url(x.png) b''" 10 "''x.png''" "''a b''"]
          at no
    by simp
qed

section \<open>A failed fetch\<close>

text \<open>
  What holds of a fetch that fails with a network error, for a target that is
  not in the cache: one request is made and the cache stays as it was, but the
  error leaves the handler uncaught and no response is sent.  A fetch that
  fails with a status code outside 2xx is answered with 406.
\<close>

lemma getHTML_network_error:
  assumes "\<not> isCached w href" and "request lib href = NetworkError err"
  shows "getHTML lib href u w = (Uncaught err, w\<lparr>outbound := outbound w @ [href]\<rparr>)"
  using assms by (simp add: getHTML_def requestHTML_def)

lemma getHTML_status_code:
  assumes "\<not> isCached w href" and "request lib href = Reply statusCode body"
    and "decode lib body = Inr text" and "\<not> (200 \<le> statusCode \<and> statusCode < 300)"
  shows "getHTML lib href u w =
           (Responded (Json 406 (StatusCodeError statusCode)), w\<lparr>outbound := outbound w @ [href]\<rparr>)"
  using assms by (auto simp: getHTML_def requestHTML_def Let_def)

lemma getHTML_cache_written:
  assumes "memory (snd (getHTML lib href u w)) \<noteq> memory w"
  shows "\<exists>statusCode body text html'. request lib href = Reply statusCode body
           \<and> decode lib body = Inr text
           \<and> changeAssetsURL u (jsdom lib text) = Inr html'
           \<and> getHTML lib href u w =
                (Responded (Send 200 (serialize lib html')),
                 caching href html' (w\<lparr>outbound := outbound w @ [href]\<rparr>))"
  using assms
  by (auto simp: getHTML_def requestHTML_def Let_def caching_def
      split: reply.splits sum.splits if_splits)

text \<open>
  C7.  The claim asks that a failed fetch is surfaced to the caller with the
  underlying error message, which the \<open>try\<close> of \<open>getHTML\<close> with its 406 answer
  is there to do.  For a connection that is refused the code does not get
  there: the callback of \<open>requestHTML\<close> throws the error inside the library,
  the exception escapes, and the run ends without a response.  One request
  was made and nothing is written to the cache.
\<close>

theorem getHTML_connection_refused:
  "getHTML
     \<lparr>request = (\<lambda>href. NetworkError (RequestError ''ECONNREFUSED'')),
      decode = Inr,
      jsdom = (\<lambda>text. \<lparr>hrefAttrs = [text], srcAttrs = [], srcsetAttrs = [], styleAttrs = [], styleTags = []\<rparr>),
      serialize = (\<lambda>d. concat (hrefAttrs d))\<rparr>
     ''http://example.com/'' \<lparr>host = ''example.com'', pathname = ''/''\<rparr>
     \<lparr>memory = Map.empty, outbound = []\<rparr>
   = (Uncaught (RequestError ''ECONNREFUSED''),
      \<lparr>memory = Map.empty, outbound = [''http://example.com/'']\<rparr>)"
  by (simp add: getHTML_def requestHTML_def isCached_def)

end
